theory Spec2Isabelle
  imports Complex_Main "HOL-Library.Multiset" "HOL-Library.AList"
begin

section \<open>The LSH cache of \<open>lsh/cache.py\<close>\<close>

text \<open>
  The class \<open>Cache\<close> keeps one bucket table per band (a \<open>defaultdict(set)\<close> from the
  hash of a band to the ids that landed there) and a dictionary from document ids to
  fingerprints. A fingerprint is a mutable sequence object: \<open>bins_\<close> shuffles it in place
  and \<open>add_fingerprint\<close> stores the very object it was given, so the model keeps the
  sequence objects in an explicit store of addresses and lets the cache hold addresses.

  What the code uses from outside \<open>cache.py\<close> is taken as follows.
  \<^item> \<open>hash(tuple(bucket))\<close>, Python's built-in hash, is the parameter \<open>h\<close> of every
    operation that bands a fingerprint.
  \<^item> The hasher (\<open>lsh.minhash.MinHasher\<close>): \<open>hasher.jaccard\<close> is the parameter \<open>jac\<close> of
    the filtering operations; a document given to a query stands for the sequence
    object that \<open>hasher.fingerprint\<close> returns for it; \<open>num_seeds\<close> and the memoisation
    that \<open>clear\<close> resets are the record \<open>hasher\<close>.
  \<^item> \<open>random.shuffle\<close> is the loop of the standard library,
    \<^verbatim>\<open>for i in reversed(range(1, len(x))): j = randbelow(i + 1); x[i], x[j] = x[j], x[i]\<close>,
    drawing from a stream of raw random numbers that is part of the state: \<open>randbelow n\<close>
    is the next number of the stream modulo \<open>n\<close>, so every sequence of draws, and with it
    every permutation, is the behaviour of some stream.
\<close>

subsection \<open>Data\<close>

type_synonym addr = nat

text \<open>The stream of raw random numbers: \<open>g 0\<close> is the next one, \<open>\<lambda>n. g (Suc n)\<close> the rest.\<close>

type_synonym rng = "nat \<Rightarrow> nat"

text \<open>
  A Python \<open>set\<close> of ids, as the list of its elements in iteration order (no element
  twice). \<open>itertools.combinations\<close> reads that order, so it is part of the data.
\<close>

type_synonym 'id bucket = "'id list"

text \<open>A \<open>defaultdict(set)\<close>: the keys in insertion order, each with its bucket.\<close>

type_synonym 'id table = "(int \<times> 'id bucket) list"

datatype error = KeyError | ValueError | IndexError | AssertionError | ZeroDivisionError

text \<open>
  Modelled from the spec: the Fingerprint Provider, the class \<open>MinHasher\<close> of
  \<open>lsh.minhash\<close>, which is not part of \<open>cache.py\<close>. The cache reads its \<open>num_seeds\<close>
  and resets "any internal memoization of fingerprint computation": \<open>memo\<close> maps
  the documents whose fingerprint is memoised to the sequence object kept for them.
\<close>

record hasher =
  num_seeds :: nat
  memo :: "string \<rightharpoonup> addr"

text \<open>
  Modelled from the spec: \<open>hasher.fingerprint.cache_clear()\<close>, the provider's
  \<open>reset_cache()\<close>, which "clears any internal memoization of fingerprint computation".
\<close>

definition cache_clear :: "hasher \<Rightarrow> hasher" where
  "cache_clear hs = hs\<lparr>memo := Map.empty\<rparr>"

text \<open>
  The attributes of a \<open>Cache\<close> object (\<open>bins\<close>, \<open>hasher\<close>, \<open>band_width\<close>,
  \<open>num_bands\<close>, \<open>fingerprints\<close>) and the two pieces of interpreter state the methods
  act on: the store of sequence objects (\<open>heap\<close>) and the random stream (\<open>rng\<close>).
\<close>

record 'id cache =
  bins :: "'id table list"
  hasher :: hasher
  band_width :: nat
  num_bands :: nat
  fingerprints :: "'id \<rightharpoonup> addr"
  heap :: "addr \<Rightarrow> int list"
  rng :: rng

subsection \<open>\<open>__init__\<close>\<close>

text \<open>
  \<open>hasher.num_seeds % num_bands\<close> raises ZeroDivisionError for \<open>num_bands = 0\<close>; the
  assertion fails when the remainder is not zero.
\<close>

definition init :: "hasher \<Rightarrow> nat \<Rightarrow> (addr \<Rightarrow> int list) \<Rightarrow> rng \<Rightarrow> error + 'id cache" where
  "init hs nb hp g =
     (if nb = 0 then Inl ZeroDivisionError
      else if num_seeds hs mod nb \<noteq> 0 then Inl AssertionError
      else Inr \<lparr>bins = replicate nb [], hasher = hs, band_width = num_seeds hs div nb,
                num_bands = nb, fingerprints = Map.empty, heap = hp, rng = g\<rparr>)"

subsection \<open>\<open>random.shuffle\<close> and \<open>numpy.array_split\<close>\<close>

text \<open>\<open>x[i], x[j] = x[j], x[i]\<close>: both reads happen before the two writes.\<close>

definition swap :: "nat \<Rightarrow> nat \<Rightarrow> 'a list \<Rightarrow> 'a list" where
  "swap i j xs = xs[i := xs ! j, j := xs ! i]"

text \<open>\<open>shuffle_loop k\<close> runs the iterations \<open>i = k, k - 1, \<dots>, 1\<close>.\<close>

fun shuffle_loop :: "nat \<Rightarrow> 'a list \<Rightarrow> rng \<Rightarrow> 'a list \<times> rng" where
  "shuffle_loop 0 xs g = (xs, g)"
| "shuffle_loop (Suc k) xs g =
     shuffle_loop k (swap (Suc k) (g 0 mod (Suc k + 1)) xs) (\<lambda>n. g (Suc n))"

definition shuffle :: "'a list \<Rightarrow> rng \<Rightarrow> 'a list \<times> rng" where
  "shuffle xs g = shuffle_loop (length xs - 1) xs g"

fun split_sizes :: "nat list \<Rightarrow> 'a list \<Rightarrow> 'a list list" where
  "split_sizes [] xs = []"
| "split_sizes (n # ns) xs = take n xs # split_sizes ns (drop n xs)"

text \<open>
  \<open>array_split(ary, n)\<close>: with \<open>each, extras = divmod(len(ary), n)\<close> the first \<open>extras\<close>
  sections have \<open>each + 1\<close> elements and the other \<open>n - extras\<close> have \<open>each\<close>; a number
  of sections that is not positive raises ValueError.
\<close>

definition array_split :: "'a list \<Rightarrow> nat \<Rightarrow> error + 'a list list" where
  "array_split xs n =
     (if n = 0 then Inl ValueError
      else let each = length xs div n; extras = length xs mod n
           in Inr (split_sizes (replicate extras (each + 1) @ replicate (n - extras) each) xs))"

subsection \<open>\<open>bins_\<close>\<close>

text \<open>
  The method \<open>bins_\<close> (a name ending in an underscore is not an Isabelle name, so
  the constant is \<open>bins_gen\<close>). The generator shuffles the object at \<open>fp\<close> in place,
  splits the shuffled sequence and yields the numbered bands. The split is complete before the first band is yielded and
  no loop body touches the fingerprint, so the bands are returned as a list.
\<close>

definition bins_gen :: "addr \<Rightarrow> 'id cache \<Rightarrow> (error + (nat \<times> int list) list) \<times> 'id cache" where
  "bins_gen fp s =
     (let (xs, g) = shuffle (heap s fp) (rng s);
          s' = s\<lparr>heap := (heap s)(fp := xs), rng := g\<rparr>
      in case array_split xs (num_bands s) of
           Inl e \<Rightarrow> (Inl e, s')
         | Inr bands \<Rightarrow> (Inr (enumerate 0 bands), s'))"

subsection \<open>Buckets\<close>

text \<open>
  \<open>table[bucket_id]\<close> on a \<open>defaultdict(set)\<close>: a missing key is inserted with an empty
  set, also when the bucket is only read.
\<close>

definition dd_get :: "'id table \<Rightarrow> int \<Rightarrow> 'id bucket \<times> 'id table" where
  "dd_get t k = (case map_of t k of Some b \<Rightarrow> (b, t) | None \<Rightarrow> ([], AList.update k [] t))"

text \<open>
  \<open>set.add\<close>. The model puts a new element last. CPython iterates a set in the order
  of its hash table: the two agree where the new element's slot lies behind the slots
  in use, or where a collision moves it there (ids 0 and 8 in either order of insertion,
  ids 1 then 2), and they differ elsewhere (ids 5 then 3 iterate as 3, 5). Of a bucket
  that results from insertions only its members are meant, except at such inputs; the
  statements about orders (\<open>combinations2\<close>, \<open>candidate_pairs\<close>) are made for every
  order of every bucket.
\<close>

definition set_add :: "'id \<Rightarrow> 'id bucket \<Rightarrow> 'id bucket" where
  "set_add d b = (if d \<in> set b then b else b @ [d])"

text \<open>The ids of the bucket of key \<open>k\<close>, a missing bucket having none.\<close>

definition members :: "'id table \<Rightarrow> int \<Rightarrow> 'id set" where
  "members t k = (case map_of t k of Some b \<Rightarrow> set b | None \<Rightarrow> {})"

subsection \<open>Insertion\<close>

text \<open>
  The loop \<open>for bin_i, bucket in self.bins_(fingerprint): self.bins[bin_i][bucket_id].add(doc_id)\<close>
  over the bands already produced; \<open>self.bins[bin_i]\<close> raises IndexError beyond the
  list.
\<close>

fun add_loop :: "(int list \<Rightarrow> int) \<Rightarrow> 'id \<Rightarrow> (nat \<times> int list) list \<Rightarrow> 'id table list
    \<Rightarrow> (error + unit) \<times> 'id table list" where
  "add_loop h d [] bs = (Inr (), bs)"
| "add_loop h d ((i, band) # rest) bs =
     (if i < length bs then
        (let (b, t) = dd_get (bs ! i) (h band)
         in add_loop h d rest (bs[i := AList.update (h band) (set_add d b) t]))
      else (Inl IndexError, bs))"

text \<open>The banding and insertion pass that the three insertion methods share.\<close>

definition add_to_bins :: "(int list \<Rightarrow> int) \<Rightarrow> addr \<Rightarrow> 'id \<Rightarrow> 'id cache
    \<Rightarrow> (error + unit) \<times> 'id cache" where
  "add_to_bins h fp d s =
     (let (r, s1) = bins_gen fp s
      in case r of
           Inl e \<Rightarrow> (Inl e, s1)
         | Inr bands \<Rightarrow> (let (r', bs) = add_loop h d bands (bins s1) in (r', s1\<lparr>bins := bs\<rparr>)))"

definition add_fingerprint :: "(int list \<Rightarrow> int) \<Rightarrow> addr \<Rightarrow> 'id \<Rightarrow> 'id cache
    \<Rightarrow> (error + unit) \<times> 'id cache" where
  "add_fingerprint h fp d s = add_to_bins h fp d (s\<lparr>fingerprints := (fingerprints s)(d \<mapsto> fp)\<rparr>)"

text \<open>
  The first loop of \<open>add_fingerprint_strict_dedup\<close>; the result is \<open>add_to_cache\<close>.
  The \<open>break\<close> leaves the remaining bands unvisited.
\<close>

fun strict_check :: "(int list \<Rightarrow> int) \<Rightarrow> (nat \<times> int list) list \<Rightarrow> 'id table list
    \<Rightarrow> (error + bool) \<times> 'id table list" where
  "strict_check h [] bs = (Inr True, bs)"
| "strict_check h ((i, band) # rest) bs =
     (if i < length bs then
        (let (b, t) = dd_get (bs ! i) (h band)
         in if length b \<ge> 1 then (Inr False, bs[i := t])
            else strict_check h rest (bs[i := t]))
      else (Inl IndexError, bs))"

definition add_fingerprint_strict_dedup :: "(int list \<Rightarrow> int) \<Rightarrow> addr \<Rightarrow> 'id \<Rightarrow> 'id cache
    \<Rightarrow> (error + unit) \<times> 'id cache" where
  "add_fingerprint_strict_dedup h fp d s =
     (let s0 = s\<lparr>fingerprints := (fingerprints s)(d \<mapsto> fp)\<rparr>;
          (r, s1) = bins_gen fp s0
      in case r of
           Inl e \<Rightarrow> (Inl e, s1)
         | Inr bands \<Rightarrow>
             (let (r', bs) = strict_check h bands (bins s1);
                  s2 = s1\<lparr>bins := bs\<rparr>
              in case r' of
                   Inl e \<Rightarrow> (Inl e, s2)
                 | Inr add_to_cache \<Rightarrow>
                     if add_to_cache then add_to_bins h fp d s2 else (Inr (), s2)))"

definition collision_threshold :: nat where
  "collision_threshold = 4"

text \<open>
  The first loop of \<open>add_fingerprint_lenient_dedup\<close>, started with the count \<open>n\<close>; the
  result is the final \<open>add_to_cache\<close>.
\<close>

fun lenient_check :: "(int list \<Rightarrow> int) \<Rightarrow> (nat \<times> int list) list \<Rightarrow> nat \<Rightarrow> 'id table list
    \<Rightarrow> (error + nat) \<times> 'id table list" where
  "lenient_check h [] n bs = (Inr n, bs)"
| "lenient_check h ((i, band) # rest) n bs =
     (if i < length bs then
        (let (b, t) = dd_get (bs ! i) (h band)
         in if length b \<ge> 1 then
              (if n + 1 \<ge> collision_threshold then (Inr (n + 1), bs[i := t])
               else lenient_check h rest (n + 1) (bs[i := t]))
            else lenient_check h rest n (bs[i := t]))
      else (Inl IndexError, bs))"

definition add_fingerprint_lenient_dedup :: "(int list \<Rightarrow> int) \<Rightarrow> addr \<Rightarrow> 'id \<Rightarrow> 'id cache
    \<Rightarrow> (error + unit) \<times> 'id cache" where
  "add_fingerprint_lenient_dedup h fp d s =
     (let s0 = s\<lparr>fingerprints := (fingerprints s)(d \<mapsto> fp)\<rparr>;
          (r, s1) = bins_gen fp s0
      in case r of
           Inl e \<Rightarrow> (Inl e, s1)
         | Inr bands \<Rightarrow>
             (let (r', bs) = lenient_check h bands 0 (bins s1);
                  s2 = s1\<lparr>bins := bs\<rparr>
              in case r' of
                   Inl e \<Rightarrow> (Inl e, s2)
                 | Inr add_to_cache \<Rightarrow>
                     if add_to_cache < collision_threshold then add_to_bins h fp d s2
                     else (Inr (), s2)))"

subsection \<open>Removal and clearing\<close>

text \<open>\<open>set.remove\<close> raises KeyError when the element is not in the set.\<close>

fun remove_loop :: "(int list \<Rightarrow> int) \<Rightarrow> 'id \<Rightarrow> (nat \<times> int list) list \<Rightarrow> 'id table list
    \<Rightarrow> (error + unit) \<times> 'id table list" where
  "remove_loop h d [] bs = (Inr (), bs)"
| "remove_loop h d ((i, band) # rest) bs =
     (if i < length bs then
        (let (b, t) = dd_get (bs ! i) (h band)
         in if d \<in> set b then
              remove_loop h d rest (bs[i := AList.update (h band) (removeAll d b) t])
            else (Inl KeyError, bs[i := t]))
      else (Inl IndexError, bs))"

definition remove_id :: "(int list \<Rightarrow> int) \<Rightarrow> 'id \<Rightarrow> 'id cache \<Rightarrow> (error + unit) \<times> 'id cache" where
  "remove_id h d s =
     (case fingerprints s d of
        None \<Rightarrow> (Inl KeyError, s)
      | Some fp \<Rightarrow>
          (let (r, s1) = bins_gen fp s
           in case r of
                Inl e \<Rightarrow> (Inl e, s1)
              | Inr bands \<Rightarrow>
                  (let (r', bs) = remove_loop h d bands (bins s1);
                       s2 = s1\<lparr>bins := bs\<rparr>
                   in case r' of
                        Inl e \<Rightarrow> (Inl e, s2)
                      | Inr _ \<Rightarrow> (Inr (), s2\<lparr>fingerprints := (fingerprints s2)(d := None)\<rparr>))))"

definition clear :: "'id cache \<Rightarrow> 'id cache" where
  "clear s = s\<lparr>bins := replicate (num_bands s) [], hasher := cache_clear (hasher s)\<rparr>"

subsection \<open>Queries\<close>

text \<open>
  \<open>itertools.combinations(xs, r=2)\<close>: the pairs of positions \<open>i < j\<close>, as tuples
  \<open>(xs[i], xs[j])\<close>.
\<close>

fun combinations2 :: "'a list \<Rightarrow> ('a \<times> 'a) list" where
  "combinations2 [] = []"
| "combinations2 (x # xs) = map (Pair x) xs @ combinations2 xs"

text \<open>The inner loop of \<open>get_all_duplicates\<close>: \<open>for bucket_id in b\<close>, reading \<open>b[bucket_id]\<close>.\<close>

definition table_pairs :: "'id table \<Rightarrow> ('id \<times> 'id) set" where
  "table_pairs t =
     (\<Union>k \<in> set (map fst t).
        case map_of t k of
          Some b \<Rightarrow> if length b > 1 then set (combinations2 b) else {}
        | None \<Rightarrow> {})"

definition candidate_pairs :: "'id cache \<Rightarrow> ('id \<times> 'id) set" where
  "candidate_pairs s = (\<Union>t \<in> set (bins s). table_pairs t)"

text \<open>The sequence stored for an id; \<open>self.fingerprints[x]\<close> raises KeyError without one.\<close>

definition stored :: "'id cache \<Rightarrow> 'id \<Rightarrow> error + int list" where
  "stored s x = (case fingerprints s x of None \<Rightarrow> Inl KeyError | Some a \<Rightarrow> Inr (heap s a))"

definition pair_kept :: "(int list \<Rightarrow> int list \<Rightarrow> real) \<Rightarrow> real \<Rightarrow> 'id cache \<Rightarrow> 'id \<times> 'id \<Rightarrow> bool" where
  "pair_kept jac min_jaccard s p =
     (case (stored s (fst p), stored s (snd p)) of
        (Inr f1, Inr f2) \<Rightarrow> jac f1 f2 > min_jaccard
      | _ \<Rightarrow> False)"

definition filter_candidates :: "(int list \<Rightarrow> int list \<Rightarrow> real) \<Rightarrow> ('id \<times> 'id) set \<Rightarrow> real
    \<Rightarrow> 'id cache \<Rightarrow> (error + ('id \<times> 'id) set) \<times> 'id cache" where
  "filter_candidates jac candidate_id_pairs min_jaccard s =
     (if \<exists>p \<in> candidate_id_pairs. fingerprints s (fst p) = None \<or> fingerprints s (snd p) = None
      then (Inl KeyError, s)
      else (Inr {p \<in> candidate_id_pairs. pair_kept jac min_jaccard s p}, s))"

definition get_all_duplicates :: "(int list \<Rightarrow> int list \<Rightarrow> real) \<Rightarrow> real option \<Rightarrow> 'id cache
    \<Rightarrow> (error + ('id \<times> 'id) set) \<times> 'id cache" where
  "get_all_duplicates jac min_jaccard s =
     (case min_jaccard of
        None \<Rightarrow> (Inr (candidate_pairs s), s)
      | Some m \<Rightarrow> filter_candidates jac (candidate_pairs s) m s)"

text \<open>The loop of \<open>get_duplicates_of\<close>: \<open>candidates.update(self.bins[bin_i][bucket_id])\<close>.\<close>

fun candidates_loop :: "(int list \<Rightarrow> int) \<Rightarrow> (nat \<times> int list) list \<Rightarrow> 'id set \<Rightarrow> 'id table list
    \<Rightarrow> (error + 'id set) \<times> 'id table list" where
  "candidates_loop h [] c bs = (Inr c, bs)"
| "candidates_loop h ((i, band) # rest) c bs =
     (if i < length bs then
        (let (b, t) = dd_get (bs ! i) (h band)
         in candidates_loop h rest (c \<union> set b) (bs[i := t]))
      else (Inl IndexError, bs))"

text \<open>
  The fingerprint a query is about. \<open>doc\<close> stands for the document argument: when a
  document is given it is the address of the sequence that \<open>hasher.fingerprint\<close> returns
  for it (the hasher is not part of \<open>cache.py\<close>). A known \<open>doc_id\<close> wins; an unknown one
  falls back to the document; neither raises ValueError.
\<close>

definition query_fingerprint :: "addr option \<Rightarrow> 'id option \<Rightarrow> 'id cache \<Rightarrow> error + addr" where
  "query_fingerprint doc doc_id s =
     (case (case doc_id of None \<Rightarrow> None | Some d \<Rightarrow> fingerprints s d) of
        Some fp \<Rightarrow> Inr fp
      | None \<Rightarrow> (case doc of Some fp \<Rightarrow> Inr fp | None \<Rightarrow> Inl ValueError))"

definition id_kept :: "(int list \<Rightarrow> int list \<Rightarrow> real) \<Rightarrow> real \<Rightarrow> 'id cache \<Rightarrow> addr \<Rightarrow> 'id \<Rightarrow> bool" where
  "id_kept jac min_jaccard s fp x =
     (case stored s x of Inr f \<Rightarrow> jac (heap s fp) f > min_jaccard | Inl _ \<Rightarrow> False)"

definition get_duplicates_of :: "(int list \<Rightarrow> int) \<Rightarrow> (int list \<Rightarrow> int list \<Rightarrow> real)
    \<Rightarrow> addr option \<Rightarrow> 'id option \<Rightarrow> real option \<Rightarrow> 'id cache
    \<Rightarrow> (error + 'id set) \<times> 'id cache" where
  "get_duplicates_of h jac doc doc_id min_jaccard s =
     (case query_fingerprint doc doc_id s of
        Inl e \<Rightarrow> (Inl e, s)
      | Inr fp \<Rightarrow>
          (let (r, s1) = bins_gen fp s
           in case r of
                Inl e \<Rightarrow> (Inl e, s1)
              | Inr bands \<Rightarrow>
                  (let (r', bs) = candidates_loop h bands {} (bins s1);
                       s2 = s1\<lparr>bins := bs\<rparr>
                   in case r' of
                        Inl e \<Rightarrow> (Inl e, s2)
                      | Inr candidates \<Rightarrow>
                          (case min_jaccard of
                             None \<Rightarrow> (Inr candidates, s2)
                           | Some m \<Rightarrow>
                               if \<exists>x \<in> candidates. fingerprints s2 x = None
                               then (Inl KeyError, s2)
                               else (Inr {x \<in> candidates. id_kept jac m s2 fp x}, s2)))))"

definition is_duplicate :: "(int list \<Rightarrow> int) \<Rightarrow> (int list \<Rightarrow> int list \<Rightarrow> real)
    \<Rightarrow> addr option \<Rightarrow> 'id option \<Rightarrow> 'id cache \<Rightarrow> (error + bool) \<times> 'id cache" where
  "is_duplicate h jac doc doc_id s =
     (case get_duplicates_of h jac doc doc_id None s of
        (Inl e, s') \<Rightarrow> (Inl e, s')
      | (Inr c, s') \<Rightarrow> (Inr (card c > 0), s'))"

text \<open>
  The loop of \<open>add_query_fingerprint_get_duplicates\<close>:
  \<open>combinations(bucket, r=len(bucket))\<close> is the one tuple of the whole bucket.
\<close>

fun query_loop :: "(int list \<Rightarrow> int) \<Rightarrow> (nat \<times> int list) list \<Rightarrow> 'id list set
    \<Rightarrow> 'id table list \<Rightarrow> (error + 'id list set) \<times> 'id table list" where
  "query_loop h [] c bs = (Inr c, bs)"
| "query_loop h ((i, band) # rest) c bs =
     (if i < length bs then
        (let (b, t) = dd_get (bs ! i) (h band)
         in query_loop h rest (if length b \<ge> 1 then c \<union> {b} else c) (bs[i := t]))
      else (Inl IndexError, bs))"

definition add_query_fingerprint_get_duplicates :: "(int list \<Rightarrow> int) \<Rightarrow> addr \<Rightarrow> 'id cache
    \<Rightarrow> (error + 'id list set) \<times> 'id cache" where
  "add_query_fingerprint_get_duplicates h fp s =
     (let (r, s1) = bins_gen fp s
      in case r of
           Inl e \<Rightarrow> (Inl e, s1)
         | Inr bands \<Rightarrow>
             (let (r', bs) = query_loop h bands {} (bins s1) in (r', s1\<lparr>bins := bs\<rparr>)))"

subsection \<open>Notions for the statements\<close>

text \<open>
  The bands that a call of \<open>bins_\<close> for the object at \<open>fp\<close> yields in state \<open>s\<close>
  (none when the call raises).
\<close>

definition bands_of :: "addr \<Rightarrow> 'id cache \<Rightarrow> (nat \<times> int list) list" where
  "bands_of fp s = (case fst (bins_gen fp s) of Inr bands \<Rightarrow> bands | Inl e \<Rightarrow> [])"

text \<open>
  A numbered band collides in the tables \<open>bs\<close> when the bucket it addresses holds an id:
  the test \<open>len(self.bins[bin_i][bucket_id]) >= 1\<close> of the two dedup insertions.
\<close>

definition collides :: "(int list \<Rightarrow> int) \<Rightarrow> 'id table list \<Rightarrow> nat \<times> int list \<Rightarrow> bool" where
  "collides h bs p = (members (bs ! fst p) (h (snd p)) \<noteq> {})"

subsection \<open>Example inputs\<close>

text \<open>
  A hash for the examples: it reads a band as a number in base ten, smallest digit
  first. On the bands of the examples it tells apart what CPython's tuple hash tells
  apart (bands that differ get different keys).
\<close>

definition example_hash :: "int list \<Rightarrow> int" where
  "example_hash xs = foldr (\<lambda>x a. x + 10 * a) xs 0"

text \<open>
  A fresh cache for four seeds in two bands. The object at address 0 is the fingerprint
  \<open>[1, 2, 3, 4]\<close>; every random draw is 0, so each step of a shuffle exchanges \<open>x[i]\<close>
  with \<open>x[0]\<close>.
\<close>

definition example_cache :: "nat cache" where
  "example_cache =
     \<lparr>bins = [[], []], hasher = \<lparr>num_seeds = 4, memo = Map.empty\<rparr>, band_width = 2,
      num_bands = 2, fingerprints = Map.empty,
      heap = (\<lambda>a. if a = 0 then [1, 2, 3, 4] else []), rng = (\<lambda>_. 0)\<rparr>"

text \<open>
  A cache for two seeds in two bands in which every shuffle leaves a sequence of two
  elements as it is (every draw is 1). Id 0 is added with \<open>[1, 2]\<close>, id 8 with
  \<open>[1, 3]\<close>, and id 0 once more with \<open>[4, 3]\<close>: the bucket of \<open>(1,)\<close> in band 0
  received 0 before 8, the bucket of \<open>(3,)\<close> in band 1 received 8 before 0. In CPython
  the sets \<open>{0, 8}\<close> built in these two orders iterate in these two orders.
\<close>

definition two_orders_cache :: "nat cache" where
  "two_orders_cache =
     (let s0 = \<lparr>bins = [[], []], hasher = \<lparr>num_seeds = 2, memo = Map.empty\<rparr>,
                band_width = 1, num_bands = 2, fingerprints = Map.empty,
                heap = (\<lambda>a. if a = 0 then [1, 2] else if a = 1 then [1, 3]
                            else if a = 2 then [4, 3] else []),
                rng = (\<lambda>_. 1)\<rparr>;
          s1 = snd (add_fingerprint example_hash 0 0 s0);
          s2 = snd (add_fingerprint example_hash 1 8 s1)
      in snd (add_fingerprint example_hash 2 0 s2))"

text \<open>
  A cache for three seeds in three bands after \<open>[1, 2, 3]\<close> was added under id 5. The
  draws 2 and 1 made the shuffle of the insertion leave the sequence as it is, so id 5
  is in the buckets of \<open>(1,)\<close>, \<open>(2,)\<close> and \<open>(3,)\<close>. The draws that follow are all 1: the
  next shuffle exchanges the last two elements, and the next banding is \<open>(1,)\<close>, \<open>(3,)\<close>,
  \<open>(2,)\<close>. Band 0 then addresses the bucket that holds id 5, band 1 a bucket that
  does not.
\<close>

definition stale_cache :: "nat cache" where
  "stale_cache =
     snd (add_fingerprint example_hash 0 5
       \<lparr>bins = [[], [], []], hasher = \<lparr>num_seeds = 3, memo = Map.empty\<rparr>,
        band_width = 1, num_bands = 3, fingerprints = Map.empty,
        heap = (\<lambda>a. if a = 0 then [1, 2, 3] else []),
        rng = (\<lambda>n. if n = 0 then 2 else 1)\<rparr>)"

text \<open>
  Two caches that hold id 1 and are about to receive a second document with the same
  fingerprint, kept at address 1. In the first (two seeds, two bands) \<open>[1, 2]\<close> was
  added under id 1 with a shuffle that left it as it is; the draws that follow are 0, so
  each of the next two shuffles exchanges the two elements. In the second (four seeds,
  four bands) \<open>[1, 2, 3, 4]\<close> was added under id 1 with a shuffle that left it as it is
  (draws 3, 2, 1); the next shuffle (draws 0, 0, 0) turns \<open>[1, 2, 3, 4]\<close> into
  \<open>[2, 3, 4, 1]\<close> and the one after it (draws 2, 1, 0) turns that back into
  \<open>[1, 2, 3, 4]\<close>.
\<close>

definition occupied_cache :: "nat cache" where
  "occupied_cache =
     snd (add_fingerprint example_hash 0 1
       \<lparr>bins = [[], []], hasher = \<lparr>num_seeds = 2, memo = Map.empty\<rparr>,
        band_width = 1, num_bands = 2, fingerprints = Map.empty,
        heap = (\<lambda>a. if a = 0 \<or> a = 1 then [1, 2] else []),
        rng = (\<lambda>n. if n = 0 then 1 else 0)\<rparr>)"

definition occupied_cache4 :: "nat cache" where
  "occupied_cache4 =
     snd (add_fingerprint example_hash 0 1
       \<lparr>bins = [[], [], [], []], hasher = \<lparr>num_seeds = 4, memo = Map.empty\<rparr>,
        band_width = 1, num_bands = 4, fingerprints = Map.empty,
        heap = (\<lambda>a. if a = 0 \<or> a = 1 then [1, 2, 3, 4] else []),
        rng = (\<lambda>n. if n < 9 then [3, 2, 1, 0, 0, 0, 2, 1, 0] ! n else 0)\<rparr>)"

text \<open>
  A similarity for the examples: the share of the positions of the first sequence at
  which the two sequences agree.
\<close>

definition example_jaccard :: "int list \<Rightarrow> int list \<Rightarrow> real" where
  "example_jaccard f1 f2 =
     real (length (filter (\<lambda>(a, b). a = b) (zip f1 f2))) / real (length f1)"

section \<open>Evaluating the examples\<close>

lemma example_cache_init:
  "init \<lparr>num_seeds = 4, memo = Map.empty\<rparr> 2 (\<lambda>a. if a = 0 then [1, 2, 3, 4] else []) (\<lambda>_. 0)
     = Inr example_cache"
proof -
  have "replicate 2 [] = [[], []::nat table]"
    by (simp add: numeral_2_eq_2)
  then show ?thesis
    by (simp add: init_def example_cache_def)
qed

lemma two_orders_bins: "bins two_orders_cache = [[(1, [0, 8]), (4, [0])], [(2, [0]), (3, [8, 0])]]"
  by code_simp

lemma two_orders_store:
  "fingerprints two_orders_cache 0 = Some 2" "fingerprints two_orders_cache 8 = Some 1"
  "heap two_orders_cache 0 = [1, 2]" "heap two_orders_cache 1 = [1, 3]"
  "heap two_orders_cache 2 = [4, 3]" "heap two_orders_cache (Suc 0) = [1, 3]"
  by code_simp+

lemma two_orders_query:
  "length (bins two_orders_cache) = num_bands two_orders_cache"
  "0 < num_bands two_orders_cache"
  "query_fingerprint None (Some 8) two_orders_cache = Inr 1"
  "bands_of 1 two_orders_cache = [(0, [1]), (1, [3])]"
  "fst (shuffle (heap two_orders_cache 1) (rng two_orders_cache)) = [1, 3]"
  by code_simp+


section \<open>The shuffle permutes\<close>

lemma length_swap [simp]: "length (swap i j xs) = length xs"
  by (simp add: swap_def)

lemma mset_swap_list: "i < length xs \<Longrightarrow> j < length xs \<Longrightarrow> mset (swap i j xs) = mset xs"
  unfolding swap_def by (rule mset_swap)

lemma shuffle_loop_length [simp]: "length (fst (shuffle_loop k xs g)) = length xs"
  by (induction k xs g rule: shuffle_loop.induct) simp_all

lemma shuffle_loop_mset: "k < length xs \<Longrightarrow> mset (fst (shuffle_loop k xs g)) = mset xs"
proof (induction k xs g rule: shuffle_loop.induct)
  case (1 xs g)
  show ?case by simp
next
  case (2 k xs g)
  have j: "g 0 mod (Suc k + 1) < length xs"
    using "2.prems" by (simp add: less_le_trans [OF mod_less_divisor])
  have "mset (swap (Suc k) (g 0 mod (Suc k + 1)) xs) = mset xs"
    using "2.prems" j by (intro mset_swap_list)
  with 2 show ?case by simp
qed

lemma shuffle_mset [simp]: "mset (fst (shuffle xs g)) = mset xs"
proof (cases xs)
  case Nil
  then show ?thesis by (simp add: shuffle_def)
next
  case (Cons x ys)
  then show ?thesis by (simp add: shuffle_def shuffle_loop_mset)
qed

lemma shuffle_length [simp]: "length (fst (shuffle xs g)) = length xs"
  by (simp add: shuffle_def)

section \<open>The bands\<close>

lemma length_split_sizes [simp]: "length (split_sizes ns xs) = length ns"
  by (induction ns xs rule: split_sizes.induct) simp_all

lemma array_split_ok:
  "0 < n \<Longrightarrow> \<exists>chunks. array_split xs n = Inr chunks \<and> length chunks = n"
  by (simp add: array_split_def Let_def less_imp_le)

lemma array_split_zero: "array_split xs 0 = Inl ValueError"
  by (simp add: array_split_def)

lemma bins_gen_bins [simp]: "bins (snd (bins_gen fp s)) = bins s"
  and bins_gen_fingerprints [simp]: "fingerprints (snd (bins_gen fp s)) = fingerprints s"
  and bins_gen_num_bands [simp]: "num_bands (snd (bins_gen fp s)) = num_bands s"
  and bins_gen_hasher [simp]: "hasher (snd (bins_gen fp s)) = hasher s"
  by (simp_all add: bins_gen_def Let_def split: prod.splits sum.splits)

lemma bins_gen_heap_mset [simp]: "mset (heap (snd (bins_gen fp s)) a) = mset (heap s a)"
  using shuffle_mset [of "heap s fp" "rng s"]
  by (auto simp add: bins_gen_def Let_def simp del: shuffle_mset split: prod.splits sum.splits)

lemma bins_gen_heap:
  "heap (snd (bins_gen fp s)) = (heap s)(fp := fst (shuffle (heap s fp) (rng s)))"
  by (simp add: bins_gen_def Let_def case_prod_beta split: sum.splits)

lemma bins_gen_heap_other: "a \<noteq> fp \<Longrightarrow> heap (snd (bins_gen fp s)) a = heap s a"
  by (simp add: bins_gen_def Let_def split: prod.splits sum.splits)

lemma bins_gen_bands:
  assumes "0 < num_bands s"
  shows "\<exists>chunks. fst (bins_gen fp s) = Inr (enumerate 0 chunks) \<and> length chunks = num_bands s"
proof -
  obtain xs g where sh: "shuffle (heap s fp) (rng s) = (xs, g)"
    by (cases "shuffle (heap s fp) (rng s)")
  obtain chunks where "array_split xs (num_bands s) = Inr chunks" "length chunks = num_bands s"
    using array_split_ok [OF assms] by blast
  with sh show ?thesis
    by (auto simp add: bins_gen_def)
qed

lemma bins_gen_no_bands: "num_bands s = 0 \<Longrightarrow> fst (bins_gen fp s) = Inl ValueError"
  by (simp add: bins_gen_def Let_def array_split_zero split: prod.splits)

text \<open>The bands do not depend on the tables or on the store of fingerprints.\<close>

lemma bins_gen_bins_update:
  "bins_gen fp (s\<lparr>bins := bs\<rparr>) = (fst (bins_gen fp s), (snd (bins_gen fp s))\<lparr>bins := bs\<rparr>)"
  by (simp add: bins_gen_def Let_def split: prod.splits sum.splits)

lemma bins_gen_fingerprints_update:
  "bins_gen fp (s\<lparr>fingerprints := f\<rparr>)
     = (fst (bins_gen fp s), (snd (bins_gen fp s))\<lparr>fingerprints := f\<rparr>)"
  by (simp add: bins_gen_def Let_def split: prod.splits sum.splits)

section \<open>Reading a bucket\<close>

lemma dd_get_members [simp]: "members (snd (dd_get t k)) = members t"
  by (auto simp add: dd_get_def members_def fun_eq_iff update_conv' split: option.splits)

lemma dd_get_bucket [simp]: "set (fst (dd_get t k)) = members t k"
  by (simp add: dd_get_def members_def split: option.splits)

lemma dd_get_map_of [simp]: "map_of (snd (dd_get t k)) k = Some (fst (dd_get t k))"
  by (simp add: dd_get_def update_conv' split: option.splits)

lemma dd_get_nonempty [simp]:
  "Suc 0 \<le> length (fst (dd_get t k)) \<longleftrightarrow> members t k \<noteq> {}"
proof -
  have "members t k \<noteq> {} \<longleftrightarrow> fst (dd_get t k) \<noteq> []"
    by (simp flip: dd_get_bucket)
  then show ?thesis
    by (cases "fst (dd_get t k)") simp_all
qed

lemma map_members_update_same:
  "members t = members (bs ! i) \<Longrightarrow> map members (bs[i := t]) = map members bs"
proof (cases "i < length bs")
  case True
  assume "members t = members (bs ! i)"
  with True have "(map members bs)[i := members t] = map members bs"
    by (simp add: list_update_same_conv)
  then show ?thesis
    by (simp add: map_update)
next
  case False
  then show ?thesis by (simp add: list_update_beyond)
qed

section \<open>One step on a table\<close>

lemma nth_members_update:
  "members t = members (bs ! i) \<Longrightarrow> members (bs[i := t] ! j) = members (bs ! j)"
  by (cases "i < length bs"; cases "j = i") (simp_all add: list_update_beyond)

lemma members_add_step:
  "members (AList.update k (set_add d (fst (dd_get t k))) (snd (dd_get t k)))
     = (members t)(k := insert d (members t k))"
  by (auto simp add: members_def dd_get_def set_add_def update_conv' fun_eq_iff
      split: option.splits)

lemma members_remove_step:
  "members (AList.update k (removeAll d (fst (dd_get t k))) (snd (dd_get t k)))
     = (members t)(k := members t k - {d})"
  by (auto simp add: members_def dd_get_def update_conv' fun_eq_iff split: option.splits)

section \<open>Loops that only read the buckets\<close>

lemma strict_check_members [simp]:
  "map members (snd (strict_check h bands bs)) = map members bs"
proof (induction bands arbitrary: bs)
  case Nil
  show ?case by simp
next
  case (Cons p bands)
  obtain i band where p: "p = (i, band)" by (cases p)
  have "map members (bs[i := snd (dd_get (bs ! i) (h band))]) = map members bs"
    by (rule map_members_update_same) simp
  with Cons show ?case
    by (simp add: p Let_def case_prod_beta)
qed

lemma lenient_check_members [simp]:
  "map members (snd (lenient_check h bands n bs)) = map members bs"
proof (induction bands arbitrary: n bs)
  case Nil
  show ?case by simp
next
  case (Cons p bands)
  obtain i band where p: "p = (i, band)" by (cases p)
  have "map members (bs[i := snd (dd_get (bs ! i) (h band))]) = map members bs"
    by (rule map_members_update_same) simp
  with Cons show ?case
    by (simp add: p Let_def case_prod_beta)
qed

lemma candidates_loop_members [simp]:
  "map members (snd (candidates_loop h bands c bs)) = map members bs"
proof (induction bands arbitrary: c bs)
  case Nil
  show ?case by simp
next
  case (Cons p bands)
  obtain i band where p: "p = (i, band)" by (cases p)
  have "map members (bs[i := snd (dd_get (bs ! i) (h band))]) = map members bs"
    by (rule map_members_update_same) simp
  with Cons show ?case
    by (simp add: p Let_def case_prod_beta)
qed

lemma query_loop_members [simp]:
  "map members (snd (query_loop h bands c bs)) = map members bs"
proof (induction bands arbitrary: c bs)
  case Nil
  show ?case by simp
next
  case (Cons p bands)
  obtain i band where p: "p = (i, band)" by (cases p)
  have "map members (bs[i := snd (dd_get (bs ! i) (h band))]) = map members bs"
    by (rule map_members_update_same) simp
  with Cons show ?case
    by (simp add: p Let_def case_prod_beta)
qed

lemma map_members_nth:
  "map members bs' = map members bs \<Longrightarrow> i < length bs \<Longrightarrow> members (bs' ! i) = members (bs ! i)"
  by (metis length_map nth_map)

lemma map_members_length: "map members bs' = map members bs \<Longrightarrow> length bs' = length bs"
  by (metis length_map)

section \<open>The outcome of the collision checks\<close>

lemma collides_pair [simp]: "collides h bs (i, band) \<longleftrightarrow> members (bs ! i) (h band) \<noteq> {}"
  by (simp add: collides_def)

lemma collides_update:
  "members t = members (bs ! i) \<Longrightarrow> collides h (bs[i := t]) = collides h bs"
  by (simp add: collides_def fun_eq_iff nth_members_update)

lemma strict_check_result:
  "list_all (\<lambda>p. fst p < length bs) bands
   \<Longrightarrow> fst (strict_check h bands bs) = Inr (filter (collides h bs) bands = [])"
proof (induction bands arbitrary: bs)
  case Nil
  show ?case by simp
next
  case (Cons p bands)
  obtain i band where p: "p = (i, band)" by (cases p)
  let ?t = "snd (dd_get (bs ! i) (h band))"
  have same: "collides h (bs[i := ?t]) = collides h bs"
    by (rule collides_update) simp
  have "fst (strict_check h bands (bs[i := ?t])) = Inr (filter (collides h (bs[i := ?t])) bands = [])"
    using Cons.prems by (intro Cons.IH) (simp add: p)
  with Cons.prems show ?case
    by (simp add: p same Let_def case_prod_beta)
qed

lemma lenient_check_result:
  "list_all (\<lambda>p. fst p < length bs) bands \<Longrightarrow> n < collision_threshold
   \<Longrightarrow> fst (lenient_check h bands n bs)
       = Inr (min collision_threshold (n + length (filter (collides h bs) bands)))"
proof (induction bands arbitrary: n bs)
  case Nil
  then show ?case by simp
next
  case (Cons p bands)
  obtain i band where p: "p = (i, band)" by (cases p)
  let ?t = "snd (dd_get (bs ! i) (h band))"
  have same: "collides h (bs[i := ?t]) = collides h bs"
    by (rule collides_update) simp
  have ok: "list_all (\<lambda>p. fst p < length (bs[i := ?t])) bands"
    using Cons.prems by (simp add: p)
  have i: "i < length bs"
    using Cons.prems by (simp add: p)
  show ?case
  proof (cases "collides h bs p")
    case False
    then have "fst (lenient_check h (p # bands) n bs) = fst (lenient_check h bands n (bs[i := ?t]))"
      using i by (simp add: p Let_def case_prod_beta)
    also have "\<dots> = Inr (min collision_threshold (n + length (filter (collides h (bs[i := ?t])) bands)))"
      using ok Cons.prems(2) by (rule Cons.IH)
    finally show ?thesis
      using False by (simp add: same)
  next
    case True
    show ?thesis
    proof (cases "collision_threshold \<le> n + 1")
      case stop: True
      then have "fst (lenient_check h (p # bands) n bs) = Inr (n + 1)"
        using i True by (simp add: p Let_def case_prod_beta)
      moreover have "n + 1 = collision_threshold"
        using stop Cons.prems(2) by simp
      ultimately show ?thesis
        using True by simp
    next
      case go: False
      then have "fst (lenient_check h (p # bands) n bs)
          = fst (lenient_check h bands (n + 1) (bs[i := ?t]))"
        using i True by (simp add: p Let_def case_prod_beta)
      also have "\<dots> = Inr (min collision_threshold
          (n + 1 + length (filter (collides h (bs[i := ?t])) bands)))"
        using ok go by (intro Cons.IH) simp_all
      finally show ?thesis
        using True by (simp add: same)
    qed
  qed
qed

section \<open>The yielded bands\<close>

lemma bands_of_eq: "0 < num_bands s \<Longrightarrow> fst (bins_gen fp s) = Inr (bands_of fp s)"
  using bins_gen_bands [of s fp] by (auto simp add: bands_of_def)

lemma bands_of_indices: "0 < num_bands s \<Longrightarrow> map fst (bands_of fp s) = [0..<num_bands s]"
  using bins_gen_bands [of s fp] by (auto simp add: bands_of_def)

lemma bands_of_in_range:
  "0 < num_bands s \<Longrightarrow> num_bands s \<le> length bs \<Longrightarrow> list_all (\<lambda>p. fst p < length bs) (bands_of fp s)"
proof -
  assume n: "0 < num_bands s" "num_bands s \<le> length bs"
  have "\<forall>i \<in> set (map fst (bands_of fp s)). i < length bs"
    using n by (simp add: bands_of_indices)
  then show ?thesis
    by (simp add: list_all_iff)
qed

lemma bands_of_bins_update [simp]: "bands_of fp (s\<lparr>bins := bs\<rparr>) = bands_of fp s"
  by (simp add: bands_of_def bins_gen_bins_update)

lemma bands_of_fingerprints_update [simp]: "bands_of fp (s\<lparr>fingerprints := f\<rparr>) = bands_of fp s"
  by (simp add: bands_of_def bins_gen_fingerprints_update)

section \<open>The insertion loop\<close>

lemma add_loop_length [simp]: "length (snd (add_loop h d bands bs)) = length bs"
proof (induction bands arbitrary: bs)
  case Nil
  show ?case by simp
next
  case (Cons p bands)
  obtain i band where p: "p = (i, band)" by (cases p)
  from Cons show ?case
    by (simp add: p Let_def case_prod_beta)
qed

lemma add_loop_ok:
  "list_all (\<lambda>p. fst p < length bs) bands \<Longrightarrow> fst (add_loop h d bands bs) = Inr ()"
proof (induction bands arbitrary: bs)
  case Nil
  show ?case by simp
next
  case (Cons p bands)
  obtain i band where p: "p = (i, band)" by (cases p)
  from Cons.prems show ?case
    by (simp add: p Let_def case_prod_beta Cons.IH)
qed

lemma add_loop_keeps:
  "x \<in> members (bs ! j) k \<Longrightarrow> x \<in> members (snd (add_loop h d bands bs) ! j) k"
proof (induction bands arbitrary: bs)
  case Nil
  then show ?case by simp
next
  case (Cons p bands)
  obtain i band where p: "p = (i, band)" by (cases p)
  let ?t = "AList.update (h band) (set_add d (fst (dd_get (bs ! i) (h band))))
              (snd (dd_get (bs ! i) (h band)))"
  show ?case
  proof (cases "i < length bs")
    case False
    with Cons.prems show ?thesis by (simp add: p)
  next
    case True
    have "x \<in> members (bs[i := ?t] ! j) k"
      using Cons.prems True by (cases "j = i") (auto simp add: members_add_step)
    then have "x \<in> members (snd (add_loop h d bands (bs[i := ?t])) ! j) k"
      by (rule Cons.IH)
    with True show ?thesis
      by (simp add: p Let_def case_prod_beta)
  qed
qed

lemma add_loop_only_adds:
  "x \<in> members (snd (add_loop h d bands bs) ! j) k \<Longrightarrow> x = d \<or> x \<in> members (bs ! j) k"
proof (induction bands arbitrary: bs)
  case Nil
  then show ?case by simp
next
  case (Cons p bands)
  obtain i band where p: "p = (i, band)" by (cases p)
  let ?t = "AList.update (h band) (set_add d (fst (dd_get (bs ! i) (h band))))
              (snd (dd_get (bs ! i) (h band)))"
  show ?case
  proof (cases "i < length bs")
    case False
    with Cons.prems show ?thesis by (simp add: p)
  next
    case True
    with Cons.prems have "x \<in> members (snd (add_loop h d bands (bs[i := ?t])) ! j) k"
      by (simp add: p Let_def case_prod_beta)
    then have "x = d \<or> x \<in> members (bs[i := ?t] ! j) k"
      by (rule Cons.IH)
    then show ?thesis
      using True by (cases "j = i") (auto simp add: members_add_step split: if_splits)
  qed
qed

lemma add_loop_inserts:
  "list_all (\<lambda>p. fst p < length bs) bands \<Longrightarrow> (i, band) \<in> set bands
   \<Longrightarrow> d \<in> members (snd (add_loop h d bands bs) ! i) (h band)"
proof (induction bands arbitrary: bs)
  case Nil
  then show ?case by simp
next
  case (Cons p bands)
  obtain i' band' where p: "p = (i', band')" by (cases p)
  let ?t = "AList.update (h band') (set_add d (fst (dd_get (bs ! i') (h band'))))
              (snd (dd_get (bs ! i') (h band')))"
  have i': "i' < length bs"
    using Cons.prems by (simp add: p)
  have step: "snd (add_loop h d (p # bands) bs) = snd (add_loop h d bands (bs[i' := ?t]))"
    using i' by (simp add: p Let_def case_prod_beta)
  show ?case
  proof (cases "(i, band) = p")
    case True
    then have "d \<in> members (bs[i' := ?t] ! i) (h band)"
      using i' by (simp add: p members_add_step)
    then show ?thesis
      unfolding step by (rule add_loop_keeps)
  next
    case False
    with Cons.prems have "(i, band) \<in> set bands" by auto
    moreover have "list_all (\<lambda>p. fst p < length (bs[i' := ?t])) bands"
      using Cons.prems by simp
    ultimately show ?thesis
      unfolding step by (intro Cons.IH)
  qed
qed

section \<open>The banding and insertion pass\<close>

lemma add_to_bins_heap [simp]: "heap (snd (add_to_bins h fp d s)) = heap (snd (bins_gen fp s))"
  and add_to_bins_fingerprints [simp]: "fingerprints (snd (add_to_bins h fp d s)) = fingerprints s"
  by (simp_all add: add_to_bins_def Let_def case_prod_beta split: sum.splits)

lemma add_to_bins_ok:
  assumes "0 < num_bands s" "num_bands s \<le> length (bins s)"
  shows "fst (add_to_bins h fp d s) = Inr ()"
    and "bins (snd (add_to_bins h fp d s)) = snd (add_loop h d (bands_of fp s) (bins s))"
  using assms
  by (simp_all add: add_to_bins_def Let_def case_prod_beta bands_of_eq add_loop_ok bands_of_in_range)

lemma add_to_bins_inserts:
  assumes "0 < num_bands s" "num_bands s \<le> length (bins s)"
  shows "list_all (\<lambda>p. d \<in> members (bins (snd (add_to_bins h fp d s)) ! fst p) (h (snd p)))
           (bands_of fp s)"
proof -
  have r: "list_all (\<lambda>p. fst p < length (bins s)) (bands_of fp s)"
    using assms by (rule bands_of_in_range)
  have "\<forall>p \<in> set (bands_of fp s).
      d \<in> members (snd (add_loop h d (bands_of fp s) (bins s)) ! fst p) (h (snd p))"
  proof
    fix p
    assume "p \<in> set (bands_of fp s)"
    then have "(fst p, snd p) \<in> set (bands_of fp s)" by simp
    with r show "d \<in> members (snd (add_loop h d (bands_of fp s) (bins s)) ! fst p) (h (snd p))"
      by (rule add_loop_inserts)
  qed
  then show ?thesis
    by (simp add: list_all_iff add_to_bins_ok [OF assms])
qed

section \<open>What every operation does to the sequence objects and to the store\<close>

lemma add_to_bins_heap_mset [simp]:
  "mset (heap (snd (add_to_bins h fp d s)) a) = mset (heap s a)"
  by simp

lemma add_fingerprint_heap_mset:
  "mset (heap (snd (add_fingerprint h fp d s)) a) = mset (heap s a)"
  by (simp add: add_fingerprint_def)

lemma add_fingerprint_stores: "fingerprints (snd (add_fingerprint h fp d s)) d = Some fp"
  by (simp add: add_fingerprint_def)

lemma strict_dedup_heap_mset:
  "mset (heap (snd (add_fingerprint_strict_dedup h fp d s)) a) = mset (heap s a)"
  by (simp add: add_fingerprint_strict_dedup_def Let_def case_prod_beta bins_gen_fingerprints_update
      split: sum.splits)

lemma strict_dedup_stores:
  "fingerprints (snd (add_fingerprint_strict_dedup h fp d s)) d = Some fp"
  by (simp add: add_fingerprint_strict_dedup_def Let_def case_prod_beta bins_gen_fingerprints_update
      split: sum.splits)

lemma lenient_dedup_heap_mset:
  "mset (heap (snd (add_fingerprint_lenient_dedup h fp d s)) a) = mset (heap s a)"
  by (simp add: add_fingerprint_lenient_dedup_def Let_def case_prod_beta bins_gen_fingerprints_update
      split: sum.splits)

lemma lenient_dedup_stores:
  "fingerprints (snd (add_fingerprint_lenient_dedup h fp d s)) d = Some fp"
  by (simp add: add_fingerprint_lenient_dedup_def Let_def case_prod_beta bins_gen_fingerprints_update
      split: sum.splits)

lemma get_duplicates_of_heap_mset:
  "mset (heap (snd (get_duplicates_of h jac doc doc_id m s)) a) = mset (heap s a)"
  by (simp add: get_duplicates_of_def Let_def case_prod_beta split: sum.splits option.splits)

lemma get_duplicates_of_fingerprints:
  "fingerprints (snd (get_duplicates_of h jac doc doc_id m s)) = fingerprints s"
  by (simp add: get_duplicates_of_def Let_def case_prod_beta split: sum.splits option.splits)

lemma get_duplicates_of_members:
  "map members (bins (snd (get_duplicates_of h jac doc doc_id m s))) = map members (bins s)"
  by (simp add: get_duplicates_of_def Let_def case_prod_beta split: sum.splits option.splits)

lemma is_duplicate_state:
  "snd (is_duplicate h jac doc doc_id s) = snd (get_duplicates_of h jac doc doc_id None s)"
  by (simp add: is_duplicate_def split: prod.splits sum.splits)

lemma query_heap_mset:
  "mset (heap (snd (add_query_fingerprint_get_duplicates h fp s)) a) = mset (heap s a)"
  by (simp add: add_query_fingerprint_get_duplicates_def Let_def case_prod_beta split: sum.splits)

section \<open>Clearing\<close>

text \<open>
  C9. \<open>clear()\<close> replaces the bucket tables by \<open>num_bands\<close> empty ones and empties the
  memoisation of the fingerprint provider; the Fingerprint Store (the ids and the
  sequences they are mapped to) is what it was before the call.
\<close>

theorem clear_resets_tables_keeps_store:
  "bins (clear s) = replicate (num_bands s) []
   \<and> memo (hasher (clear s)) = Map.empty
   \<and> fingerprints (clear s) = fingerprints s
   \<and> heap (clear s) = heap s"
  by (simp add: clear_def cache_clear_def)

section \<open>Insertion followed by a query or a removal\<close>

text \<open>
  C1, at a concrete input. The fingerprint \<open>[1, 2, 3, 4]\<close> is added under id 5: the
  shuffle of the insertion leaves \<open>[2, 3, 4, 1]\<close>, id 5 goes to the buckets of \<open>(2, 3)\<close>
  and \<open>(4, 1)\<close>. The query by the stored id shuffles the stored sequence again, to
  \<open>[3, 4, 1, 2]\<close>, looks into the buckets of \<open>(3, 4)\<close> and \<open>(1, 2)\<close>, and returns the
  empty set: id 5 is not among its own duplicates.
\<close>

theorem add_then_query_misses_own_id:
  "fst (get_duplicates_of example_hash (\<lambda>_ _. 0) None (Some 5) None
         (snd (add_fingerprint example_hash 0 (5::nat) example_cache))) = Inr {}"
  by code_simp

text \<open>
  C2, at the same input. \<open>remove_id\<close> shuffles the stored sequence again, addresses the
  bucket of \<open>(3, 4)\<close> in band 0, which does not hold id 5, and raises KeyError there:
  id 5 is still in the store and in both buckets of the insertion, and band 0 has
  gained an empty bucket.
\<close>

theorem add_then_remove_raises_key_error:
  "(case remove_id example_hash 5 (snd (add_fingerprint example_hash 0 (5::nat) example_cache)) of
      (r, s) \<Rightarrow> r = Inl KeyError \<and> fingerprints s 5 = Some 0
        \<and> bins s = [[(32, [5]), (43, [])], [(14, [5])]])"
  by code_simp

section \<open>The caller's fingerprint\<close>

text \<open>
  What \<open>add_fingerprint\<close> does to the caller's sequence: the object at \<open>fp\<close> is
  shuffled where it is, and the store refers to that object.
\<close>

lemma add_fingerprint_heap:
  "heap (snd (add_fingerprint h fp d s)) = (heap s)(fp := fst (shuffle (heap s fp) (rng s)))"
  by (simp add: add_fingerprint_def bins_gen_fingerprints_update bins_gen_heap)

text \<open>
  C3, at a concrete input. The caller passes the sequence \<open>[1, 2, 3, 4]\<close> to
  \<open>add_fingerprint\<close>; after the call the caller's sequence is \<open>[2, 3, 4, 1]\<close>, and the
  fingerprint recorded for id 5 is that same reordered object, not the sequence of
  elements that was passed in.
\<close>

theorem add_fingerprint_reorders_the_callers_sequence:
  "heap example_cache 0 = [1, 2, 3, 4]
   \<and> heap (snd (add_fingerprint example_hash 0 (5::nat) example_cache)) 0 = [2, 3, 4, 1]
   \<and> fingerprints (snd (add_fingerprint example_hash 0 (5::nat) example_cache)) 5 = Some 0"
  by code_simp

section \<open>Strict and lenient insertion\<close>

lemma strict_check_length [simp]: "length (snd (strict_check h bands bs)) = length bs"
  by (rule map_members_length) simp

lemma lenient_check_length [simp]: "length (snd (lenient_check h bands n bs)) = length bs"
  by (rule map_members_length) simp

lemma strict_dedup_unfold:
  fixes h :: "int list \<Rightarrow> int" and fp :: addr and d :: 'id and s :: "'id cache"
  assumes n: "0 < num_bands s" and len: "length (bins s) = num_bands s"
  defines "s2 \<equiv> (snd (bins_gen fp s))\<lparr>fingerprints := (fingerprints s)(d \<mapsto> fp),
                   bins := snd (strict_check h (bands_of fp s) (bins s))\<rparr>"
  shows "add_fingerprint_strict_dedup h fp d s =
           (if filter (collides h (bins s)) (bands_of fp s) = [] then add_to_bins h fp d s2
            else (Inr (), s2))"
proof -
  have r: "list_all (\<lambda>p. fst p < length (bins s)) (bands_of fp s)"
    using n len by (intro bands_of_in_range) simp_all
  show ?thesis
    using n
    by (simp add: add_fingerprint_strict_dedup_def Let_def case_prod_beta
        bins_gen_fingerprints_update bands_of_eq strict_check_result [OF r] s2_def)
qed

lemma lenient_dedup_unfold:
  fixes h :: "int list \<Rightarrow> int" and fp :: addr and d :: 'id and s :: "'id cache"
  assumes n: "0 < num_bands s" and len: "length (bins s) = num_bands s"
  defines "s2 \<equiv> (snd (bins_gen fp s))\<lparr>fingerprints := (fingerprints s)(d \<mapsto> fp),
                   bins := snd (lenient_check h (bands_of fp s) 0 (bins s))\<rparr>"
  shows "add_fingerprint_lenient_dedup h fp d s =
           (if length (filter (collides h (bins s)) (bands_of fp s)) < collision_threshold
            then add_to_bins h fp d s2 else (Inr (), s2))"
proof -
  have r: "list_all (\<lambda>p. fst p < length (bins s)) (bands_of fp s)"
    using n len by (intro bands_of_in_range) simp_all
  have c: "0 < collision_threshold"
    by (simp add: collision_threshold_def)
  show ?thesis
    using n
    by (simp add: add_fingerprint_lenient_dedup_def Let_def case_prod_beta
        bins_gen_fingerprints_update bands_of_eq lenient_check_result [OF r c] s2_def)
qed

text \<open>
  What the strict insertion does in every cache that has its \<open>num_bands\<close> tables. The
  checking pass and the inserting pass band the fingerprint separately, each after a
  shuffle of its own: a collision in the checking pass leaves the members of every
  bucket as they were; without one, the id is put into the buckets that the bands of
  the inserting pass address, which need not be the buckets that were checked.
\<close>

lemma strict_dedup_outcome:
  "fingerprints (snd (add_fingerprint_strict_dedup h fp d s)) d = Some fp
   \<and> (length (bins s) = num_bands s \<and> 0 < num_bands s \<longrightarrow>
        fst (add_fingerprint_strict_dedup h fp d s) = Inr ()
        \<and> (if filter (collides h (bins s)) (bands_of fp s) \<noteq> []
           then map members (bins (snd (add_fingerprint_strict_dedup h fp d s)))
                  = map members (bins s)
           else map fst (bands_of fp (snd (bins_gen fp s))) = [0..<num_bands s]
              \<and> list_all (\<lambda>p. d \<in> members (bins (snd (add_fingerprint_strict_dedup h fp d s)) ! fst p)
                                   (h (snd p)))
                   (bands_of fp (snd (bins_gen fp s)))))"
proof (intro conjI impI)
  show "fingerprints (snd (add_fingerprint_strict_dedup h fp d s)) d = Some fp"
    by (rule strict_dedup_stores)
next
  assume a: "length (bins s) = num_bands s \<and> 0 < num_bands s"
  define s2 where "s2 = (snd (bins_gen fp s))\<lparr>fingerprints := (fingerprints s)(d \<mapsto> fp),
                   bins := snd (strict_check h (bands_of fp s) (bins s))\<rparr>"
  have u: "add_fingerprint_strict_dedup h fp d s =
           (if filter (collides h (bins s)) (bands_of fp s) = [] then add_to_bins h fp d s2
            else (Inr (), s2))"
    using a unfolding s2_def by (intro strict_dedup_unfold) simp_all
  have n2: "0 < num_bands s2" "num_bands s2 \<le> length (bins s2)"
    using a by (simp_all add: s2_def)
  have b2: "bands_of fp s2 = bands_of fp (snd (bins_gen fp s))"
    by (simp add: s2_def)
  show "fst (add_fingerprint_strict_dedup h fp d s) = Inr ()"
    by (simp add: u add_to_bins_ok [OF n2])
  show "if filter (collides h (bins s)) (bands_of fp s) \<noteq> []
    then map members (bins (snd (add_fingerprint_strict_dedup h fp d s))) = map members (bins s)
    else map fst (bands_of fp (snd (bins_gen fp s))) = [0..<num_bands s]
       \<and> list_all (\<lambda>p. d \<in> members (bins (snd (add_fingerprint_strict_dedup h fp d s)) ! fst p)
              (h (snd p))) (bands_of fp (snd (bins_gen fp s)))"
  proof (cases "filter (collides h (bins s)) (bands_of fp s) = []")
    case False
    then show ?thesis
      by (simp add: u s2_def)
  next
    case True
    have "map fst (bands_of fp (snd (bins_gen fp s))) = [0..<num_bands s]"
      using a bands_of_indices [of "snd (bins_gen fp s)" fp] by simp
    moreover have "list_all (\<lambda>p. d \<in> members (bins (snd (add_to_bins h fp d s2)) ! fst p) (h (snd p)))
        (bands_of fp (snd (bins_gen fp s)))"
      using add_to_bins_inserts [OF n2, of d h fp] by (simp add: b2)
    ultimately show ?thesis
      using True by (simp add: u)
  qed
qed

text \<open>
  The same for the lenient insertion: its counter ends at the number of colliding bands
  of the checking pass, capped at the threshold 4 where the loop stops; at 4 the
  members of every bucket are as they were, below 4 the id is put into the buckets that
  the bands of the separately shuffled inserting pass address.
\<close>

lemma lenient_dedup_outcome:
  "fingerprints (snd (add_fingerprint_lenient_dedup h fp d s)) d = Some fp
   \<and> (length (bins s) = num_bands s \<and> 0 < num_bands s \<longrightarrow>
        fst (add_fingerprint_lenient_dedup h fp d s) = Inr ()
        \<and> fst (lenient_check h (bands_of fp s) 0 (bins s))
            = Inr (min 4 (length (filter (collides h (bins s)) (bands_of fp s))))
        \<and> (if 4 \<le> length (filter (collides h (bins s)) (bands_of fp s))
           then map members (bins (snd (add_fingerprint_lenient_dedup h fp d s)))
                  = map members (bins s)
           else map fst (bands_of fp (snd (bins_gen fp s))) = [0..<num_bands s]
              \<and> list_all (\<lambda>p. d \<in> members (bins (snd (add_fingerprint_lenient_dedup h fp d s)) ! fst p)
                                   (h (snd p)))
                   (bands_of fp (snd (bins_gen fp s)))))"
proof (intro conjI impI)
  show "fingerprints (snd (add_fingerprint_lenient_dedup h fp d s)) d = Some fp"
    by (rule lenient_dedup_stores)
next
  assume a: "length (bins s) = num_bands s \<and> 0 < num_bands s"
  define s2 where "s2 = (snd (bins_gen fp s))\<lparr>fingerprints := (fingerprints s)(d \<mapsto> fp),
                   bins := snd (lenient_check h (bands_of fp s) 0 (bins s))\<rparr>"
  have u: "add_fingerprint_lenient_dedup h fp d s =
           (if length (filter (collides h (bins s)) (bands_of fp s)) < collision_threshold
            then add_to_bins h fp d s2 else (Inr (), s2))"
    using a unfolding s2_def by (intro lenient_dedup_unfold) simp_all
  have n2: "0 < num_bands s2" "num_bands s2 \<le> length (bins s2)"
    using a by (simp_all add: s2_def)
  have b2: "bands_of fp s2 = bands_of fp (snd (bins_gen fp s))"
    by (simp add: s2_def)
  have r: "list_all (\<lambda>p. fst p < length (bins s)) (bands_of fp s)"
    using a by (intro bands_of_in_range) simp_all
  show "fst (add_fingerprint_lenient_dedup h fp d s) = Inr ()"
    by (simp add: u add_to_bins_ok [OF n2])
  show "fst (lenient_check h (bands_of fp s) 0 (bins s))
      = Inr (min 4 (length (filter (collides h (bins s)) (bands_of fp s))))"
    using lenient_check_result [OF r, of 0 h] by (simp add: collision_threshold_def)
  show "if 4 \<le> length (filter (collides h (bins s)) (bands_of fp s))
    then map members (bins (snd (add_fingerprint_lenient_dedup h fp d s))) = map members (bins s)
    else map fst (bands_of fp (snd (bins_gen fp s))) = [0..<num_bands s]
       \<and> list_all (\<lambda>p. d \<in> members (bins (snd (add_fingerprint_lenient_dedup h fp d s)) ! fst p)
              (h (snd p))) (bands_of fp (snd (bins_gen fp s)))"
  proof (cases "4 \<le> length (filter (collides h (bins s)) (bands_of fp s))")
    case True
    then show ?thesis
      by (simp add: u s2_def collision_threshold_def)
  next
    case False
    have "map fst (bands_of fp (snd (bins_gen fp s))) = [0..<num_bands s]"
      using a bands_of_indices [of "snd (bins_gen fp s)" fp] by simp
    moreover have "list_all (\<lambda>p. d \<in> members (bins (snd (add_to_bins h fp d s2)) ! fst p) (h (snd p)))
        (bands_of fp (snd (bins_gen fp s)))"
      using add_to_bins_inserts [OF n2, of d h fp] by (simp add: b2)
    ultimately show ?thesis
      using False by (simp add: u collision_threshold_def)
  qed
qed

text \<open>
  C4, at a concrete input. The cache holds id 1 with the fingerprint \<open>[1, 2]\<close>, in the
  buckets of \<open>(1,)\<close> in band 0 and of \<open>(2,)\<close> in band 1. A second document with the
  same fingerprint is added under id 2 by \<open>add_fingerprint_strict_dedup\<close>. The checking
  pass shuffles the sequence to \<open>[2, 1]\<close> and looks into the buckets of \<open>(2,)\<close> in band
  0 and of \<open>(1,)\<close> in band 1, which are empty: no band collides. The inserting pass
  shuffles again, to \<open>[1, 2]\<close>, and puts id 2 into the buckets of \<open>(1,)\<close> in band 0 and
  of \<open>(2,)\<close> in band 1: beside id 1 in both bands, and into neither of the buckets
  that were checked.
\<close>

theorem strict_dedup_files_duplicate_beside_original:
  "bins occupied_cache = [[(1, [1])], [(2, [1])]]
   \<and> heap occupied_cache 0 = [1, 2] \<and> heap occupied_cache 1 = [1, 2]
   \<and> bands_of 1 occupied_cache = [(0, [2]), (1, [1])]
   \<and> filter (collides example_hash (bins occupied_cache)) (bands_of 1 occupied_cache) = []
   \<and> fst (add_fingerprint_strict_dedup example_hash 1 2 occupied_cache) = Inr ()
   \<and> bins (snd (add_fingerprint_strict_dedup example_hash 1 2 occupied_cache))
       = [[(1, [1, 2]), (2, [])], [(2, [1, 2]), (1, [])]]"
  by code_simp

text \<open>
  C5, at a concrete input. The cache has four bands and holds id 1 with the fingerprint
  \<open>[1, 2, 3, 4]\<close>, one element per band. A second document with the same fingerprint
  is added under id 2 by \<open>add_fingerprint_lenient_dedup\<close>. The checking pass shuffles
  the sequence to \<open>[2, 3, 4, 1]\<close> and finds the four buckets it addresses empty: the
  count is 0. The inserting pass shuffles the sequence back to \<open>[1, 2, 3, 4]\<close> and puts
  id 2 beside id 1 in all four bands, into none of the buckets that were checked.
\<close>

theorem lenient_dedup_files_duplicate_in_all_bands:
  "bins occupied_cache4 = [[(1, [1])], [(2, [1])], [(3, [1])], [(4, [1])]]
   \<and> heap occupied_cache4 0 = [1, 2, 3, 4] \<and> heap occupied_cache4 1 = [1, 2, 3, 4]
   \<and> bands_of 1 occupied_cache4 = [(0, [2]), (1, [3]), (2, [4]), (3, [1])]
   \<and> fst (lenient_check example_hash (bands_of 1 occupied_cache4) 0 (bins occupied_cache4)) = Inr 0
   \<and> fst (add_fingerprint_lenient_dedup example_hash 1 2 occupied_cache4) = Inr ()
   \<and> bins (snd (add_fingerprint_lenient_dedup example_hash 1 2 occupied_cache4))
       = [[(1, [1, 2]), (2, [])], [(2, [1, 2]), (3, [])], [(3, [1, 2]), (4, [])],
          [(4, [1, 2]), (1, [])]]"
  by code_simp

section \<open>Removal\<close>

lemma bands_of_enumerate:
  "0 < num_bands s \<Longrightarrow> \<exists>chunks. bands_of fp s = enumerate 0 chunks \<and> length chunks = num_bands s"
  using bins_gen_bands [of s fp] by (auto simp add: bands_of_def)

lemma remove_loop_aborts:
  "n + length chunks \<le> length bs \<Longrightarrow> j < length chunks
   \<Longrightarrow> d \<notin> members (bs ! (n + j)) (h (chunks ! j))
   \<Longrightarrow> \<forall>p<j. d \<in> members (bs ! (n + p)) (h (chunks ! p))
   \<Longrightarrow> fst (remove_loop h d (enumerate n chunks) bs) = Inl KeyError
     \<and> (\<forall>p<j. members (snd (remove_loop h d (enumerate n chunks) bs) ! (n + p))
            = (members (bs ! (n + p)))
                (h (chunks ! p) := members (bs ! (n + p)) (h (chunks ! p)) - {d}))
     \<and> (\<forall>q. q < n \<or> n + j \<le> q \<longrightarrow>
            members (snd (remove_loop h d (enumerate n chunks) bs) ! q) = members (bs ! q))"
proof (induction chunks arbitrary: n bs j)
  case Nil
  then show ?case by simp
next
  case (Cons c cs)
  have n: "n < length bs"
    using Cons.prems(1) by simp
  show ?case
  proof (cases j)
    case 0
    with Cons.prems(3) have "d \<notin> members (bs ! n) (h c)" by simp
    then show ?thesis
      using n 0 by (simp add: Let_def case_prod_beta nth_members_update)
  next
    case (Suc j')
    let ?t = "AList.update (h c) (removeAll d (fst (dd_get (bs ! n) (h c))))
                (snd (dd_get (bs ! n) (h c)))"
    let ?bs1 = "bs[n := ?t]"
    let ?r = "remove_loop h d (enumerate (Suc n) cs) ?bs1"
    have here: "d \<in> members (bs ! n) (h c)"
      using Cons.prems(4) Suc by (auto dest: spec [of _ 0])
    have step: "remove_loop h d (enumerate n (c # cs)) bs = ?r"
      using n here by (simp add: Let_def case_prod_beta)
    have other: "\<And>q. q \<noteq> n \<Longrightarrow> ?bs1 ! q = bs ! q"
      by simp
    have t: "members (?bs1 ! n) = (members (bs ! n))(h c := members (bs ! n) (h c) - {d})"
      using n by (simp add: members_remove_step)
    have p1: "Suc n + length cs \<le> length ?bs1"
      using Cons.prems(1) by simp
    have p2: "j' < length cs"
      using Cons.prems(2) Suc by simp
    have p3: "d \<notin> members (?bs1 ! (Suc n + j')) (h (cs ! j'))"
      using Cons.prems(3) Suc by (simp add: other)
    have p4: "\<forall>p<j'. d \<in> members (?bs1 ! (Suc n + p)) (h (cs ! p))"
    proof (intro allI impI)
      fix p
      assume "p < j'"
      then have "d \<in> members (bs ! (n + Suc p)) (h ((c # cs) ! Suc p))"
        using Cons.prems(4) Suc by (auto dest: spec [of _ "Suc p"])
      then show "d \<in> members (?bs1 ! (Suc n + p)) (h (cs ! p))"
        by (simp add: other)
    qed
    note ih = Cons.IH [OF p1 p2 p3 p4]
    note ih_earlier = ih [THEN conjunct2, THEN conjunct1, rule_format]
    note ih_others = ih [THEN conjunct2, THEN conjunct2, rule_format]
    have a: "fst ?r = Inl KeyError"
      using ih by (rule conjunct1)
    have b: "\<forall>p<j. members (snd ?r ! (n + p))
        = (members (bs ! (n + p)))
            (h ((c # cs) ! p) := members (bs ! (n + p)) (h ((c # cs) ! p)) - {d})"
    proof (intro allI impI)
      fix p
      assume pj: "p < j"
      show "members (snd ?r ! (n + p))
        = (members (bs ! (n + p)))
            (h ((c # cs) ! p) := members (bs ! (n + p)) (h ((c # cs) ! p)) - {d})"
      proof (cases p)
        case 0
        have "members (snd ?r ! n) = members (?bs1 ! n)"
          by (rule ih_others) simp
        with t show ?thesis
          by (simp add: 0)
      next
        case (Suc p')
        then have "p' < j'"
          using pj \<open>j = Suc j'\<close> by simp
        then have "members (snd ?r ! (Suc n + p'))
          = (members (?bs1 ! (Suc n + p')))
              (h (cs ! p') := members (?bs1 ! (Suc n + p')) (h (cs ! p')) - {d})"
          by (rule ih_earlier)
        then show ?thesis
          by (simp add: Suc other)
      qed
    qed
    have c: "\<forall>q. q < n \<or> n + j \<le> q \<longrightarrow> members (snd ?r ! q) = members (bs ! q)"
    proof (intro allI impI)
      fix q
      assume q: "q < n \<or> n + j \<le> q"
      then have "q < Suc n \<or> Suc n + j' \<le> q"
        using Suc by auto
      then have "members (snd ?r ! q) = members (?bs1 ! q)"
        by (rule ih_others)
      moreover have "q \<noteq> n"
        using q Suc by auto
      ultimately show "members (snd ?r ! q) = members (bs ! q)"
        by (simp add: other)
    qed
    show ?thesis
      unfolding step using a b c by simp
  qed
qed

text \<open>
  C8 as stated fails: where band 1 addresses a bucket without id 5, \<open>remove_id\<close> raises
  KeyError there; id 5 has left its bucket of band 0, is still in its buckets of bands
  1 and 2 and still in the store.
\<close>

theorem remove_id_aborts_partway:
  "(case remove_id example_hash 5 stale_cache of
      (r, s) \<Rightarrow> r = Inl KeyError \<and> fingerprints s 5 = Some 0
        \<and> bins s = [[(1, [])], [(2, [5]), (3, [])], [(3, [5])]])"
  by code_simp

text \<open>
  C8, amended. When band \<open>j\<close> is the first band whose addressed bucket does not hold
  the stored \<open>doc_id\<close>, \<open>remove_id\<close> raises KeyError at that band and stops: the id has
  been removed from the addressed buckets of the bands before \<open>j\<close>, the members of the
  tables from band \<open>j\<close> on are what they were, and the Fingerprint Store is unchanged
  (the id is still stored).
\<close>

theorem remove_id_raises_at_first_missing_bucket:
  assumes "fingerprints s d = Some fp"
    and "length (bins s) = num_bands s"
    and "j < num_bands s"
    and "d \<notin> members (bins s ! j) (h (snd (bands_of fp s ! j)))"
    and "\<forall>p<j. d \<in> members (bins s ! p) (h (snd (bands_of fp s ! p)))"
  shows "fst (remove_id h d s) = Inl KeyError
     \<and> fingerprints (snd (remove_id h d s)) = fingerprints s
     \<and> (\<forall>p<j. members (bins (snd (remove_id h d s)) ! p)
            = (members (bins s ! p))
                (h (snd (bands_of fp s ! p))
                   := members (bins s ! p) (h (snd (bands_of fp s ! p))) - {d}))
     \<and> (\<forall>q. j \<le> q \<longrightarrow> members (bins (snd (remove_id h d s)) ! q) = members (bins s ! q))"
proof -
  have n: "0 < num_bands s"
    using assms(3) by simp
  obtain chunks where ch: "bands_of fp s = enumerate 0 chunks" "length chunks = num_bands s"
    using bands_of_enumerate [OF n] by blast
  have nth: "\<And>p. p < num_bands s \<Longrightarrow> snd (bands_of fp s ! p) = chunks ! p"
    by (simp add: ch nth_enumerate_eq)
  have p1: "0 + length chunks \<le> length (bins s)"
    using assms(2) ch by simp
  have p2: "j < length chunks"
    using assms(3) ch by simp
  have p3: "d \<notin> members (bins s ! (0 + j)) (h (chunks ! j))"
    using assms(3,4) by (simp add: nth)
  have p4: "\<forall>p<j. d \<in> members (bins s ! (0 + p)) (h (chunks ! p))"
    using assms(3,5) by (simp add: nth)
  note loop = remove_loop_aborts [OF p1 p2 p3 p4]
  have run: "remove_id h d s =
      (Inl KeyError, (snd (bins_gen fp s))\<lparr>bins := snd (remove_loop h d (enumerate 0 chunks) (bins s))\<rparr>)"
    using assms(1) n loop
    by (simp add: remove_id_def Let_def case_prod_beta bands_of_eq ch)
  have "\<forall>p<j. snd (bands_of fp s ! p) = chunks ! p"
    using assms(3) by (simp add: nth)
  then show ?thesis
    using loop by (simp add: run)
qed

theorem remove_id_raises_at_first_missing_bucket_witness:
  "fst (remove_id example_hash 5 stale_cache) = Inl KeyError
   \<and> fingerprints (snd (remove_id example_hash 5 stale_cache)) = fingerprints stale_cache
   \<and> members (bins (snd (remove_id example_hash 5 stale_cache)) ! 0)
       = (members (bins stale_cache ! 0))
           (example_hash (snd (bands_of 0 stale_cache ! 0))
              := members (bins stale_cache ! 0)
                   (example_hash (snd (bands_of 0 stale_cache ! 0))) - {5})
   \<and> members (bins (snd (remove_id example_hash 5 stale_cache)) ! 2)
       = members (bins stale_cache ! 2)"
proof -
  have h1: "fingerprints stale_cache 5 = Some 0"
    by code_simp
  have h2: "length (bins stale_cache) = num_bands stale_cache"
    by code_simp
  have h3: "1 < num_bands stale_cache"
    by code_simp
  have h4: "5 \<notin> members (bins stale_cache ! 1) (example_hash (snd (bands_of 0 stale_cache ! 1)))"
    by code_simp
  have h5: "\<forall>p<1. 5 \<in> members (bins stale_cache ! p) (example_hash (snd (bands_of 0 stale_cache ! p)))"
  proof -
    have "5 \<in> members (bins stale_cache ! 0) (example_hash (snd (bands_of 0 stale_cache ! 0)))"
      by code_simp
    then show ?thesis by simp
  qed
  note inst = remove_id_raises_at_first_missing_bucket [OF h1 h2 h3 h4 h5]
  note earlier = inst [THEN conjunct2, THEN conjunct2, THEN conjunct1, rule_format, of 0]
  note later = inst [THEN conjunct2, THEN conjunct2, THEN conjunct2, rule_format, of 2]
  show ?thesis
    using inst earlier later by simp
qed

section \<open>Queries and the state\<close>

lemma get_duplicates_of_heap_other:
  "query_fingerprint doc doc_id s \<noteq> Inr a
   \<Longrightarrow> heap (snd (get_duplicates_of h jac doc doc_id m s)) a = heap s a"
  by (auto simp add: get_duplicates_of_def Let_def case_prod_beta bins_gen_heap
      split: sum.splits option.splits)

text \<open>
  C10 as stated fails: a query by id on the cache that holds id 5 adds an empty bucket
  to each band and leaves the stored fingerprint \<open>[2, 3, 4, 1]\<close> as \<open>[3, 4, 1, 2]\<close>.
\<close>

theorem query_by_id_changes_tables_and_stored_order:
  "bins (snd (add_fingerprint example_hash 0 (5::nat) example_cache))
     = [[(32, [5])], [(14, [5])]]
   \<and> heap (snd (add_fingerprint example_hash 0 (5::nat) example_cache)) 0 = [2, 3, 4, 1]
   \<and> bins (snd (get_duplicates_of example_hash (\<lambda>_ _. 0) None (Some 5) None
              (snd (add_fingerprint example_hash 0 (5::nat) example_cache))))
     = [[(32, [5]), (43, [])], [(14, [5]), (21, [])]]
   \<and> heap (snd (get_duplicates_of example_hash (\<lambda>_ _. 0) None (Some 5) None
              (snd (add_fingerprint example_hash 0 (5::nat) example_cache)))) 0
     = [3, 4, 1, 2]"
  by code_simp

text \<open>
  C10, amended. \<open>get_all_duplicates\<close> leaves the state as it is. \<open>get_duplicates_of\<close>
  and \<open>is_duplicate\<close> leave the Fingerprint Store mapping the same ids to the same
  sequence objects, leave every bucket of every band with the same members (a bucket
  that was missing counts as empty, and may now exist empty), and leave every sequence
  object other than the fingerprint the query is about exactly as it was, element for
  element in order. The fingerprint the query is about keeps its elements with their
  multiplicities; what the call does to their order is the shuffle of \<open>bins_\<close> and is
  no part of this statement.
\<close>

theorem queries_keep_members_and_store:
  "snd (get_all_duplicates jac m s) = s
   \<and> fingerprints (snd (get_duplicates_of h jac doc doc_id m s)) = fingerprints s
   \<and> map members (bins (snd (get_duplicates_of h jac doc doc_id m s))) = map members (bins s)
   \<and> (\<forall>a. query_fingerprint doc doc_id s \<noteq> Inr a
          \<longrightarrow> heap (snd (get_duplicates_of h jac doc doc_id m s)) a = heap s a)
   \<and> (\<forall>a. mset (heap (snd (get_duplicates_of h jac doc doc_id m s)) a) = mset (heap s a))
   \<and> fingerprints (snd (is_duplicate h jac doc doc_id s)) = fingerprints s
   \<and> map members (bins (snd (is_duplicate h jac doc doc_id s))) = map members (bins s)
   \<and> (\<forall>a. query_fingerprint doc doc_id s \<noteq> Inr a
          \<longrightarrow> heap (snd (is_duplicate h jac doc doc_id s)) a = heap s a)
   \<and> (\<forall>a. mset (heap (snd (is_duplicate h jac doc doc_id s)) a) = mset (heap s a))"
  by (simp add: is_duplicate_state get_duplicates_of_fingerprints get_duplicates_of_members
      get_duplicates_of_heap_mset get_duplicates_of_heap_other get_all_duplicates_def
      filter_candidates_def split: option.splits)

theorem queries_keep_members_and_store_witness:
  "snd (get_all_duplicates example_jaccard None two_orders_cache) = two_orders_cache
   \<and> fingerprints (snd (get_duplicates_of example_hash example_jaccard None (Some 8) None
        two_orders_cache)) = fingerprints two_orders_cache
   \<and> map members (bins (snd (get_duplicates_of example_hash example_jaccard None (Some 8) None
        two_orders_cache))) = map members (bins two_orders_cache)
   \<and> heap (snd (get_duplicates_of example_hash example_jaccard None (Some 8) None
        two_orders_cache)) 0 = [1, 2]
   \<and> heap (snd (get_duplicates_of example_hash example_jaccard None (Some 8) None
        two_orders_cache)) 2 = [4, 3]"
proof -
  note inst = queries_keep_members_and_store [of example_jaccard None two_orders_cache example_hash None "Some 8"]
  have "query_fingerprint None (Some 8) two_orders_cache \<noteq> Inr 0"
    and "query_fingerprint None (Some 8) two_orders_cache \<noteq> Inr 2"
    by (simp_all add: two_orders_query)
  with inst show ?thesis
    by (simp add: two_orders_store)
qed

section \<open>All candidate pairs\<close>

lemma combinations2_iff:
  "(a, b) \<in> set (combinations2 xs) \<longleftrightarrow> (\<exists>i j. i < j \<and> j < length xs \<and> xs ! i = a \<and> xs ! j = b)"
proof (induction xs)
  case Nil
  show ?case by simp
next
  case (Cons x xs)
  show ?case
  proof
    assume "(a, b) \<in> set (combinations2 (x # xs))"
    then consider "a = x" "b \<in> set xs" | "(a, b) \<in> set (combinations2 xs)"
      by auto
    then show "\<exists>i j. i < j \<and> j < length (x # xs) \<and> (x # xs) ! i = a \<and> (x # xs) ! j = b"
    proof cases
      case 1
      then obtain j where "j < length xs" "xs ! j = b"
        by (auto simp add: in_set_conv_nth)
      with 1 have "0 < Suc j \<and> Suc j < length (x # xs) \<and> (x # xs) ! 0 = a \<and> (x # xs) ! Suc j = b"
        by simp
      then show ?thesis by blast
    next
      case 2
      then obtain i j where "i < j" "j < length xs" "xs ! i = a" "xs ! j = b"
        using Cons.IH by blast
      then have "Suc i < Suc j \<and> Suc j < length (x # xs) \<and> (x # xs) ! Suc i = a \<and> (x # xs) ! Suc j = b"
        by simp
      then show ?thesis by blast
    qed
  next
    assume "\<exists>i j. i < j \<and> j < length (x # xs) \<and> (x # xs) ! i = a \<and> (x # xs) ! j = b"
    then obtain i j where ij: "i < j" "j < length (x # xs)" "(x # xs) ! i = a" "(x # xs) ! j = b"
      by blast
    then obtain j' where j': "j = Suc j'"
      by (cases j) simp_all
    show "(a, b) \<in> set (combinations2 (x # xs))"
    proof (cases i)
      case 0
      with ij j' show ?thesis by auto
    next
      case (Suc i')
      with ij j' have "i' < j' \<and> j' < length xs \<and> xs ! i' = a \<and> xs ! j' = b"
        by simp
      then have "(a, b) \<in> set (combinations2 xs)"
        using Cons.IH by blast
      then show ?thesis by simp
    qed
  qed
qed

lemma table_pairs_iff:
  "(a, b) \<in> table_pairs t \<longleftrightarrow>
     (\<exists>k bk. map_of t k = Some bk \<and> (a, b) \<in> set (combinations2 bk))"
proof
  assume "(a, b) \<in> table_pairs t"
  then obtain k where k: "(a, b) \<in> (case map_of t k of
      Some b \<Rightarrow> if length b > 1 then set (combinations2 b) else {} | None \<Rightarrow> {})"
    unfolding table_pairs_def by blast
  show "\<exists>k bk. map_of t k = Some bk \<and> (a, b) \<in> set (combinations2 bk)"
  proof (cases "map_of t k")
    case None
    with k show ?thesis by simp
  next
    case (Some bk)
    with k have "(a, b) \<in> set (combinations2 bk)"
      by (simp split: if_splits)
    with Some show ?thesis by blast
  qed
next
  assume "\<exists>k bk. map_of t k = Some bk \<and> (a, b) \<in> set (combinations2 bk)"
  then obtain k bk where kb: "map_of t k = Some bk" and ab: "(a, b) \<in> set (combinations2 bk)"
    by blast
  have "1 < length bk"
  proof (cases bk)
    case Nil
    with ab show ?thesis by simp
  next
    case (Cons x xs)
    with ab show ?thesis by (cases xs) simp_all
  qed
  with kb ab have "(a, b) \<in> (case map_of t k of
      Some b \<Rightarrow> if length b > 1 then set (combinations2 b) else {} | None \<Rightarrow> {})"
    by simp
  moreover have "k \<in> set (map fst t)"
    using map_of_SomeD [OF kb] by (simp add: image_iff) (rule bexI [of _ "(k, bk)"], simp_all)
  ultimately show "(a, b) \<in> table_pairs t"
    unfolding table_pairs_def by (rule UN_I [rotated])
qed

lemma candidate_pairs_iff_combinations:
  "(a, b) \<in> candidate_pairs s \<longleftrightarrow>
     (\<exists>t \<in> set (bins s). \<exists>k bk. map_of t k = Some bk \<and> (a, b) \<in> set (combinations2 bk))"
  by (simp add: candidate_pairs_def table_pairs_iff)

lemma candidate_pairs_iff:
  "(a, b) \<in> candidate_pairs s \<longleftrightarrow>
     (\<exists>t \<in> set (bins s). \<exists>k bk. map_of t k = Some bk
        \<and> (\<exists>i j. i < j \<and> j < length bk \<and> bk ! i = a \<and> bk ! j = b))"
  by (simp add: candidate_pairs_iff_combinations combinations2_iff)

lemma candidate_pairsI:
  assumes "t \<in> set (bins s)" "map_of t k = Some bk" "i < j" "j < length bk"
  shows "(bk ! i, bk ! j) \<in> candidate_pairs s"
proof -
  have "(bk ! i, bk ! j) \<in> set (combinations2 bk)"
    unfolding combinations2_iff using assms(3,4) by blast
  with assms(2) have "\<exists>k bk'. map_of t k = Some bk' \<and> (bk ! i, bk ! j) \<in> set (combinations2 bk')"
    by blast
  with assms(1) show ?thesis
    unfolding candidate_pairs_iff_combinations by (rule bexI [rotated])
qed

lemma candidate_pairs_some_orientation:
  assumes "t \<in> set (bins s)" "a \<in> members t k" "b \<in> members t k" "a \<noteq> b"
  shows "(a, b) \<in> candidate_pairs s \<or> (b, a) \<in> candidate_pairs s"
proof -
  obtain bk where bk: "map_of t k = Some bk" "a \<in> set bk" "b \<in> set bk"
    using assms(2,3) by (cases "map_of t k") (simp_all add: members_def)
  obtain i where i: "i < length bk" "bk ! i = a"
    using bk(2) by (auto simp add: in_set_conv_nth)
  obtain j where j: "j < length bk" "bk ! j = b"
    using bk(3) by (auto simp add: in_set_conv_nth)
  have "i \<noteq> j"
    using assms(4) i j by auto
  then consider "i < j" | "j < i"
    by (cases i j rule: linorder_cases) simp_all
  then show ?thesis
  proof cases
    case 1
    have "(bk ! i, bk ! j) \<in> candidate_pairs s"
      using assms(1) bk(1) 1 j(1) by (rule candidate_pairsI)
    then show ?thesis by (simp add: i j)
  next
    case 2
    have "(bk ! j, bk ! i) \<in> candidate_pairs s"
      using assms(1) bk(1) 2 i(1) by (rule candidate_pairsI)
    then show ?thesis by (simp add: i j)
  qed
qed

lemma candidate_pairs_distinct:
  assumes "\<forall>t \<in> set (bins s). \<forall>p \<in> set t. distinct (snd p)" "(a, b) \<in> candidate_pairs s"
  shows "a \<noteq> b"
proof -
  obtain t k bk where t: "t \<in> set (bins s)" "map_of t k = Some bk"
    and ab: "(a, b) \<in> set (combinations2 bk)"
    using assms(2) unfolding candidate_pairs_iff_combinations by blast
  obtain i j where ij: "i < j" "j < length bk" "bk ! i = a" "bk ! j = b"
    using ab unfolding combinations2_iff by blast
  have "(k, bk) \<in> set t"
    using t(2) by (rule map_of_SomeD)
  with assms(1) t(1) have "distinct (snd (k, bk))"
    by blast
  then have "distinct bk" by simp
  with ij show ?thesis
    by (auto simp add: nth_eq_iff_index_eq)
qed

text \<open>
  C6 as stated fails: with ids 0 and 8 sharing a bucket in each of two bands, one
  iterating 0 first and one iterating 8 first, the result holds the pair in both
  orientations.
\<close>

theorem get_all_duplicates_both_orientations:
  "fst (get_all_duplicates (\<lambda>_ _. 0) None two_orders_cache) = Inr {(0, 8), (8, 0)}"
  by (auto simp add: get_all_duplicates_def candidate_pairs_def table_pairs_def two_orders_bins)

text \<open>
  C6, amended. Without a threshold \<open>get_all_duplicates\<close> returns exactly the tuples
  \<open>(a, b)\<close> such that some bucket of some band iterates \<open>a\<close> at an earlier position than
  \<open>b\<close> (such a bucket holds more than one id); the result is a set, so a tuple found in
  several bands is in it once. Two different ids that share a bucket are in the result
  in at least one orientation, and where buckets hold no id twice the two ids of a
  tuple differ.
\<close>

theorem get_all_duplicates_ordered_pairs:
  "fst (get_all_duplicates jac None s) = Inr (candidate_pairs s)
   \<and> ((a, b) \<in> candidate_pairs s \<longleftrightarrow>
        (\<exists>t \<in> set (bins s). \<exists>k bk. map_of t k = Some bk
           \<and> (\<exists>i j. i < j \<and> j < length bk \<and> bk ! i = a \<and> bk ! j = b)))
   \<and> ((\<exists>t \<in> set (bins s). \<exists>k. a \<in> members t k \<and> b \<in> members t k) \<and> a \<noteq> b
        \<longrightarrow> (a, b) \<in> candidate_pairs s \<or> (b, a) \<in> candidate_pairs s)
   \<and> ((\<forall>t \<in> set (bins s). \<forall>p \<in> set t. distinct (snd p)) \<and> (a, b) \<in> candidate_pairs s
        \<longrightarrow> a \<noteq> b)"
proof (intro conjI impI)
  show "fst (get_all_duplicates jac None s) = Inr (candidate_pairs s)"
    by (simp add: get_all_duplicates_def)
  show "(a, b) \<in> candidate_pairs s \<longleftrightarrow>
        (\<exists>t \<in> set (bins s). \<exists>k bk. map_of t k = Some bk
           \<and> (\<exists>i j. i < j \<and> j < length bk \<and> bk ! i = a \<and> bk ! j = b))"
    by (rule candidate_pairs_iff)
next
  assume "(\<exists>t \<in> set (bins s). \<exists>k. a \<in> members t k \<and> b \<in> members t k) \<and> a \<noteq> b"
  then obtain t k where "t \<in> set (bins s)" "a \<in> members t k" "b \<in> members t k" "a \<noteq> b"
    by blast
  then show "(a, b) \<in> candidate_pairs s \<or> (b, a) \<in> candidate_pairs s"
    by (rule candidate_pairs_some_orientation)
next
  assume "(\<forall>t \<in> set (bins s). \<forall>p \<in> set t. distinct (snd p)) \<and> (a, b) \<in> candidate_pairs s"
  then have "\<forall>t \<in> set (bins s). \<forall>p \<in> set t. distinct (snd p)" "(a, b) \<in> candidate_pairs s"
    by blast+
  then show "a \<noteq> b"
    by (rule candidate_pairs_distinct)
qed

theorem get_all_duplicates_ordered_pairs_witness:
  "((0, 8) \<in> candidate_pairs two_orders_cache \<or> (8, 0) \<in> candidate_pairs two_orders_cache)
   \<and> (0::nat) \<noteq> 8"
proof -
  have h1: "(\<exists>t \<in> set (bins two_orders_cache). \<exists>k. 0 \<in> members t k \<and> 8 \<in> members t k) \<and> (0::nat) \<noteq> 8"
  proof -
    have "0 \<in> members [(1, [0, 8::nat]), (4, [0])] 1 \<and> 8 \<in> members [(1, [0, 8::nat]), (4, [0])] 1"
      by (simp add: members_def)
    then show ?thesis
      by (auto simp add: two_orders_bins)
  qed
  have h2: "\<forall>t \<in> set (bins two_orders_cache). \<forall>p \<in> set t. distinct (snd p)"
    by (simp add: two_orders_bins)
  note inst = get_all_duplicates_ordered_pairs [of "\<lambda>_ _. 0" two_orders_cache 0 8]
  have a: "(0, 8) \<in> candidate_pairs two_orders_cache \<or> (8, 0) \<in> candidate_pairs two_orders_cache"
    using inst h1 by blast
  show ?thesis
    using a by simp
qed

section \<open>Filtering by similarity\<close>






end
